theory Spec2Isabelle
  imports Complex_Main "HOL-Library.Word"
begin

section \<open>C scalar types\<close>

text \<open>
  The probe is built for 64-bit Linux: \<^verbatim>\<open>long\<close> is a 64-bit two's complement
  integer whose arithmetic wraps around, read as a signed value by \<open>sint\<close>.
  \<^verbatim>\<open>double\<close> is modelled by the real numbers: the arithmetic is exact, rounding of
  IEEE 754 is not part of the model. The two \<^verbatim>\<open>int\<close> fields of the sample window
  stay between 0 and 10 on every path that does not leave the array, so they are
  mathematical integers and leaving the array is an explicit fault.
\<close>

type_synonym long = "64 word"
type_synonym cint = "32 word"
type_synonym double = real

definition double_of_long :: "long \<Rightarrow> double" where
  "double_of_long x = real_of_int (sint x)"

section \<open>state.h, state.c: health states\<close>

datatype sys_state = SYS_OK | SYS_WARN | SYS_DANGER

record mem_stat =
  mem_total_kb :: long
  mem_avail_kb :: long
  swap_total_kb :: long
  swap_free_kb :: long

fun sys_state_str :: "sys_state \<Rightarrow> string" where
  "sys_state_str SYS_OK = ''ok''"
| "sys_state_str SYS_WARN = ''warn''"
| "sys_state_str SYS_DANGER = ''danger''"

definition cpu_state_from_avg :: "double \<Rightarrow> sys_state" where
  "cpu_state_from_avg avg =
     (if avg > 95 then SYS_DANGER
      else if avg > 85 then SYS_WARN
      else SYS_OK)"

text \<open>
  The argument of \<^verbatim>\<open>mem_state_from_capacity\<close> is a pointer: \<open>None\<close> is the null
  pointer, \<open>Some cap\<close> a pointer to the record \<open>cap\<close>.
\<close>

definition mem_state_from_capacity :: "mem_stat option \<Rightarrow> sys_state" where
  "mem_state_from_capacity p =
     (case p of
        None \<Rightarrow> SYS_OK
      | Some cap \<Rightarrow>
          if mem_total_kb cap = 0 then SYS_OK
          else
            let avail_ratio =
                  double_of_long (mem_avail_kb cap) / double_of_long (mem_total_kb cap);
                swap_used =
                  (if 0 < sint (swap_total_kb cap)
                   then double_of_long (swap_total_kb cap - swap_free_kb cap)
                          / double_of_long (swap_total_kb cap)
                   else 0)
            in if avail_ratio < 0.05 then SYS_DANGER
               else if avail_ratio < 0.1 \<or> swap_used > 80 then SYS_WARN
               else SYS_OK)"

text \<open>
  The classifier as the specification words it, over the four fields read as
  integers: the swap figure is a percentage, \<open>100 * (swapTotal - swapFree) / swapTotal\<close>.
  It is used only to set the code against the specification.
\<close>

definition swapUsedPercent_spec :: "int \<Rightarrow> int \<Rightarrow> real" where
  "swapUsedPercent_spec swapTotalKb swapFreeKb =
     (if swapTotalKb > 0
      then 100 * real_of_int (swapTotalKb - swapFreeKb) / real_of_int swapTotalKb
      else 0)"

definition memState_spec :: "int \<Rightarrow> int \<Rightarrow> int \<Rightarrow> int \<Rightarrow> sys_state" where
  "memState_spec totalKb availableKb swapTotalKb swapFreeKb =
     (if totalKb = 0 then SYS_OK
      else if real_of_int availableKb / real_of_int totalKb < 0.05 then SYS_DANGER
      else if real_of_int availableKb / real_of_int totalKb < 0.10
              \<or> swapUsedPercent_spec swapTotalKb swapFreeKb > 80 then SYS_WARN
      else SYS_OK)"

section \<open>cpu.h, cpu.c: tick snapshots and utilisation\<close>

record cpu_stat =
  user :: long
  nice :: long
  system :: long
  idle :: long

definition cpu_usage :: "cpu_stat \<Rightarrow> cpu_stat \<Rightarrow> double" where
  "cpu_usage prev cur =
     (let prev_idle = idle prev;
          curr_idle = idle cur;
          prev_total = user prev + nice prev + system prev + idle prev;
          curr_total = user cur + nice cur + system cur + idle cur;
          total_delta = curr_total - prev_total;
          idle_delta = curr_idle - prev_idle
      in if total_delta = 0 then 0
         else 100 * double_of_long (total_delta - idle_delta) / double_of_long total_delta)"

text \<open>The sum \<^verbatim>\<open>prev_total\<close>, \<^verbatim>\<open>curr_total\<close> of the four counters of a snapshot.\<close>

definition tick_total :: "cpu_stat \<Rightarrow> long" where
  "tick_total s = user s + nice s + system s + idle s"

text \<open>
  The same sum over the integers, and the snapshots the kernel hands out: counters that
  are not negative and whose sum fits a \<^verbatim>\<open>long\<close>.
\<close>

definition ticks :: "cpu_stat \<Rightarrow> int" where
  "ticks s = sint (user s) + sint (nice s) + sint (system s) + sint (idle s)"

definition plain_stat :: "cpu_stat \<Rightarrow> bool" where
  "plain_stat s =
     (0 \<le> sint (user s) \<and> 0 \<le> sint (nice s) \<and> 0 \<le> sint (system s) \<and> 0 \<le> sint (idle s)
      \<and> ticks s < 2 ^ 63)"

text \<open>Componentwise shift of a snapshot, in the arithmetic of \<^verbatim>\<open>long\<close>.\<close>

definition shift_stat :: "long \<times> long \<times> long \<times> long \<Rightarrow> cpu_stat \<Rightarrow> cpu_stat" where
  "shift_stat d s =
     (case d of (du, dn, ds, di) \<Rightarrow>
        s\<lparr>user := user s + du, nice := nice s + dn, system := system s + ds, idle := idle s + di\<rparr>)"

text \<open>
  Steps the C standard leaves undefined are faults of the model: an access outside the
  sample array, and \<^verbatim>\<open>fclose\<close> on a null stream.
\<close>

datatype fault = Out_Of_Bounds | Null_Stream

record cpu_capacity =
  cores :: cint
  max_freq_khz :: long

text \<open>
  What \<^verbatim>\<open>read_cpu_capacity\<close> sees of the machine: the value of
  \<^verbatim>\<open>sysconf(_SC_NPROCESSORS_ONLN)\<close> (\<open>-1\<close> when the query fails), and the
  file \<^verbatim>\<open>cpuinfo_max_freq\<close>: \<open>None\<close> when \<^verbatim>\<open>fopen\<close> returns null,
  \<open>Some None\<close> when the file opens and \<^verbatim>\<open>fscanf\<close> converts nothing,
  \<open>Some (Some v)\<close> when it stores \<open>v\<close>.
\<close>

record capacity_env =
  nprocessors_onln :: long
  cpuinfo_max_freq :: "long option option"

text \<open>
  The result is the text printed and then either a fault or the return code with the
  record behind the pointer. With the file absent the function prints its notice and
  then reaches \<^verbatim>\<open>fclose(f)\<close> with \<open>f\<close> null, which stands after the
  \<^verbatim>\<open>if\<close>/\<^verbatim>\<open>else\<close>. The cast \<^verbatim>\<open>(int)cores\<close> keeps the low 32 bits.
\<close>

definition read_cpu_capacity ::
    "cpu_capacity option \<Rightarrow> capacity_env \<Rightarrow> string \<times> (fault + int \<times> cpu_capacity option)" where
  "read_cpu_capacity p env =
     (case p of
        None \<Rightarrow> ([], Inr (- 1, None))
      | Some cap \<Rightarrow>
          let cores0 = nprocessors_onln env;
              cores1 = (if sint cores0 < 1 then 1 else cores0);
              cap1 = cap\<lparr>cores := scast cores1, max_freq_khz := - 1\<rparr>
          in case cpuinfo_max_freq env of
               None \<Rightarrow> (''Frequency info is not exposed.'', Inl Null_Stream)
             | Some scanned \<Rightarrow>
                 ([],
                  Inr (0, Some (case scanned of
                                  None \<Rightarrow> cap1
                                | Some v \<Rightarrow> cap1\<lparr>max_freq_khz := v\<rparr>))))"

text \<open>
  \<^verbatim>\<open>read_cpu_stat\<close>: the source is \<open>None\<close> when \<^verbatim>\<open>/proc/stat\<close> does not open,
  otherwise the numbers \<^verbatim>\<open>fscanf\<close> converts after the word \<^verbatim>\<open>cpu\<close>, in order. Each
  converted number is stored at once, so a short line leaves the record partly written.
  The count is what \<^verbatim>\<open>fscanf\<close> returns; its \<^verbatim>\<open>EOF\<close> on an empty file is, like
  0, not 4.
\<close>

fun scan_ticks :: "cpu_stat \<Rightarrow> long list \<Rightarrow> int \<times> cpu_stat" where
  "scan_ticks out (u # n # s # i # rest) =
     (4, out\<lparr>user := u, nice := n, system := s, idle := i\<rparr>)"
| "scan_ticks out [u, n, s] = (3, out\<lparr>user := u, nice := n, system := s\<rparr>)"
| "scan_ticks out [u, n] = (2, out\<lparr>user := u, nice := n\<rparr>)"
| "scan_ticks out [u] = (1, out\<lparr>user := u\<rparr>)"
| "scan_ticks out [] = (0, out)"

definition read_cpu_stat :: "cpu_stat \<Rightarrow> long list option \<Rightarrow> int \<times> cpu_stat" where
  "read_cpu_stat out src =
     (case src of
        None \<Rightarrow> (- 1, out)
      | Some f \<Rightarrow> (case scan_ticks out f of (n, out') \<Rightarrow> (if n = 4 then 0 else - 1, out')))"

section \<open>mem.h, mem.c: the memory snapshot\<close>

text \<open>
  \<^verbatim>\<open>/proc/meminfo\<close> as the loop of \<^verbatim>\<open>read_mem_stat\<close> sees it: the triples
  (key, value, unit) that successive calls of \<^verbatim>\<open>fscanf(f, "%31s %ld %15s", ...)\<close>
  convert in full, up to the first call that returns something other than 3. Every
  content of the file gives such a list, the empty one included; keys are compared by
  \<^verbatim>\<open>strcmp\<close>, that is, for equality.
\<close>

type_synonym meminfo = "(string \<times> long \<times> string) list"

text \<open>
  The \<^verbatim>\<open>while\<close> loop. The result holds the record, the counter and the triples left
  unread when the loop ends.
\<close>

fun meminfo_scan :: "mem_stat \<Rightarrow> int \<Rightarrow> meminfo \<Rightarrow> mem_stat \<times> int \<times> meminfo" where
  "meminfo_scan cap cnt [] = (cap, cnt, [])"
| "meminfo_scan cap cnt ((key, v, unit) # rest) =
     (case (if key = ''MemTotal:'' then (cap\<lparr>mem_total_kb := v\<rparr>, cnt + 1)
            else if key = ''MemAvailable:'' then (cap\<lparr>mem_avail_kb := v\<rparr>, cnt + 1)
            else if key = ''SwapTotal:'' then (cap\<lparr>swap_total_kb := v\<rparr>, cnt + 1)
            else if key = ''SwapFree:'' then (cap\<lparr>swap_free_kb := v\<rparr>, cnt + 1)
            else (cap, cnt)) of
        (cap', cnt') \<Rightarrow>
          if cnt' = 4 then (cap', cnt', rest) else meminfo_scan cap' cnt' rest)"

text \<open>
  The pointer argument is \<open>None\<close> when null. The source is \<open>None\<close> when
  \<^verbatim>\<open>fopen\<close> fails. The result is the return code and the record behind the pointer.
\<close>

definition read_mem_stat :: "mem_stat option \<Rightarrow> meminfo option \<Rightarrow> int \<times> mem_stat option" where
  "read_mem_stat p src =
     (case p of
        None \<Rightarrow> (- 1, None)
      | Some cap \<Rightarrow>
          let cap0 = cap\<lparr>mem_total_kb := 0, mem_avail_kb := 0,
                          swap_total_kb := 0, swap_free_kb := 0\<rparr>
          in case src of
               None \<Rightarrow> (- 1, Some cap0)
             | Some f \<Rightarrow> (case meminfo_scan cap0 0 f of (cap', cnt, rest) \<Rightarrow> (0, Some cap')))"

text \<open>
  Names for what the loop does, used to state its properties: the four keys it
  looks for, the record with its four fields set to 0 (the first four assignments of
  \<^verbatim>\<open>read_mem_stat\<close>), the store one triple performs, and the number of triples of a
  list whose key is one of the four.
\<close>

definition mem_keys :: "string set" where
  "mem_keys = {''MemTotal:'', ''MemAvailable:'', ''SwapTotal:'', ''SwapFree:''}"

definition zeroed :: "mem_stat \<Rightarrow> mem_stat" where
  "zeroed cap = cap\<lparr>mem_total_kb := 0, mem_avail_kb := 0, swap_total_kb := 0, swap_free_kb := 0\<rparr>"

definition store_key :: "string \<Rightarrow> long \<Rightarrow> mem_stat \<Rightarrow> mem_stat" where
  "store_key key v cap =
     (if key = ''MemTotal:'' then cap\<lparr>mem_total_kb := v\<rparr>
      else if key = ''MemAvailable:'' then cap\<lparr>mem_avail_kb := v\<rparr>
      else if key = ''SwapTotal:'' then cap\<lparr>swap_total_kb := v\<rparr>
      else if key = ''SwapFree:'' then cap\<lparr>swap_free_kb := v\<rparr>
      else cap)"

definition matched :: "meminfo \<Rightarrow> nat" where
  "matched xs = length (filter (\<lambda>t. fst t \<in> mem_keys) xs)"

section \<open>window.h, window.c: the sample window\<close>

definition CPU_WINDOW :: int where
  "CPU_WINDOW = 10"

text \<open>
  The array \<^verbatim>\<open>samples[CPU_WINDOW]\<close> is a list of ten cells; \<^verbatim>\<open>cpu_window_init\<close>
  does not write to it, so a fresh window holds whatever the cells held before.
\<close>

record cpu_window =
  samples :: "double list"
  index :: int
  count :: int

definition cpu_window_init :: "cpu_window \<Rightarrow> cpu_window" where
  "cpu_window_init w = w\<lparr>index := 0, count := 0\<rparr>"

text \<open>
  The store \<^verbatim>\<open>w->samples[w->index] = value\<close> comes first; past it the index is within
  \<open>0..9\<close>, where the remainder of C and \<open>mod\<close> agree.
\<close>

definition cpu_window_add :: "cpu_window \<Rightarrow> double \<Rightarrow> fault + cpu_window" where
  "cpu_window_add w v =
     (if 0 \<le> index w \<and> index w < CPU_WINDOW
      then Inr (w\<lparr>samples := (samples w)[nat (index w) := v],
                  index := (index w + 1) mod CPU_WINDOW,
                  count := (if count w < CPU_WINDOW then count w + 1 else count w)\<rparr>)
      else Inl Out_Of_Bounds)"

text \<open>The \<^verbatim>\<open>for\<close> loop of \<^verbatim>\<open>cpu_window_avg\<close>, from \<open>i\<close>; \<open>acc\<close> is the variable \<^verbatim>\<open>sum\<close>.\<close>

function avg_loop :: "cpu_window \<Rightarrow> int \<Rightarrow> double \<Rightarrow> fault + double" where
  "avg_loop w i acc =
     (if i < count w
      then (if 0 \<le> i \<and> i < CPU_WINDOW
            then avg_loop w (i + 1) (acc + samples w ! nat i)
            else Inl Out_Of_Bounds)
      else Inr acc)"
  by pat_completeness auto
termination
  by (relation "measure (\<lambda>(w, i, acc). nat (count w - i))") auto

definition cpu_window_avg :: "cpu_window \<Rightarrow> fault + double" where
  "cpu_window_avg w =
     (case avg_loop w 0 0 of
        Inl e \<Rightarrow> Inl e
      | Inr acc \<Rightarrow> Inr (if count w \<noteq> 0 then acc / real_of_int (count w) else 0))"

text \<open>Adding a sequence of values, one call of \<^verbatim>\<open>cpu_window_add\<close> each, in order.\<close>

fun cpu_window_add_all :: "cpu_window \<Rightarrow> double list \<Rightarrow> fault + cpu_window" where
  "cpu_window_add_all w [] = Inr w"
| "cpu_window_add_all w (v # vs) =
     (case cpu_window_add w v of Inl e \<Rightarrow> Inl e | Inr w' \<Rightarrow> cpu_window_add_all w' vs)"

text \<open>The representation invariant of the C type: the array has ten cells.\<close>

definition ten_cells :: "cpu_window \<Rightarrow> bool" where
  "ten_cells w = (length (samples w) = nat CPU_WINDOW)"

text \<open>
  How a window stands to the values added since \<^verbatim>\<open>cpu_window_init\<close>: the value
  number \<open>k\<close> sits in cell \<open>k mod 10\<close> as long as it is among the last ten.
\<close>

definition ring_holds :: "cpu_window \<Rightarrow> double list \<Rightarrow> bool" where
  "ring_holds w vs =
     (ten_cells w
      \<and> index w = int (length vs mod 10)
      \<and> count w = int (min (length vs) 10)
      \<and> (\<forall>k<length vs. length vs \<le> k + 10 \<longrightarrow> samples w ! (k mod 10) = vs ! k))"

section \<open>main.c: one pass of the sampling loop\<close>

text \<open>
  The arguments of the \<^verbatim>\<open>printf\<close> call of the loop, before formatting, and the two
  labels.
\<close>

record tick_line =
  ts :: double
  cpu :: double
  cpu_avg :: double
  mem_used :: double
  mem_avail :: double
  mem_swap_used :: double
  mem_swap_avail :: double
  CPU_STATE :: string
  MEM_STATE :: string

text \<open>The variables of \<^verbatim>\<open>main\<close> that live across passes.\<close>

record probe =
  prev_cpu :: cpu_stat
  curr_cpu :: cpu_stat
  cpu_win :: cpu_window
  mem :: mem_stat

text \<open>What one pass reads: the two files and the clock.\<close>

record tick_env =
  proc_stat :: "long list option"
  proc_meminfo :: "meminfo option"
  now_sec :: double

text \<open>
  The body of \<^verbatim>\<open>while (running)\<close> after the sleep. A failed \<^verbatim>\<open>read_cpu_stat\<close>
  is the \<^verbatim>\<open>continue\<close>: no line is printed. The return code of \<^verbatim>\<open>read_mem_stat\<close>
  is not looked at.
\<close>

definition main_tick :: "probe \<Rightarrow> tick_env \<Rightarrow> fault + (probe \<times> tick_line option)" where
  "main_tick st env =
     (case read_cpu_stat (curr_cpu st) (proc_stat env) of
        (rc, cur) \<Rightarrow>
          if rc \<noteq> 0 then Inr (st\<lparr>curr_cpu := cur\<rparr>, None)
          else
            let usage = cpu_usage (prev_cpu st) cur in
            case cpu_window_add (cpu_win st) usage of
              Inl e \<Rightarrow> Inl e
            | Inr win \<Rightarrow>
                let m = (case snd (read_mem_stat (Some (mem st)) (proc_meminfo env)) of
                           None \<Rightarrow> mem st
                         | Some m' \<Rightarrow> m')
                in case cpu_window_avg win of
                     Inl e \<Rightarrow> Inl e
                   | Inr avg_cpu \<Rightarrow>
                       let cpu_state = cpu_state_from_avg avg_cpu;
                           mem_state = mem_state_from_capacity (Some m);
                           t = now_sec env;
                           line = \<lparr>ts = t,
                                   cpu = usage,
                                   cpu_avg = avg_cpu,
                                   mem_used =
                                     double_of_long (mem_total_kb m - mem_avail_kb m) / 1024 / 1024,
                                   mem_avail = double_of_long (mem_avail_kb m) / 1024 / 1024,
                                   mem_swap_used =
                                     double_of_long (swap_total_kb m - swap_free_kb m) / 1024 / 1024,
                                   mem_swap_avail = double_of_long (swap_free_kb m) / 1024,
                                   CPU_STATE = sys_state_str cpu_state,
                                   MEM_STATE = sys_state_str mem_state\<rparr>
                       in Inr (st\<lparr>prev_cpu := cur, curr_cpu := cur, cpu_win := win, mem := m\<rparr>,
                               Some line))"

text \<open>
  The four figures of the start-up banner of \<^verbatim>\<open>main\<close>: total and available memory,
  total and free swap.
\<close>

definition main_banner :: "mem_stat \<Rightarrow> double \<times> double \<times> double \<times> double" where
  "main_banner m =
     (double_of_long (mem_total_kb m) / 1024 / 1024,
      double_of_long (mem_avail_kb m) / 1024 / 1024,
      double_of_long (swap_total_kb m) / 1024 / 1024,
      double_of_long (swap_free_kb m) / 1024 / 1024)"

section \<open>Theorems: the arithmetic of long\<close>

text \<open>Where no wrap-around occurs, the signed reading follows the integers.\<close>

lemma sint_add_in_range:
  fixes a b :: long
  assumes "- (2 ^ 63) \<le> sint a + sint b" "sint a + sint b < 2 ^ 63"
  shows "sint (a + b) = sint a + sint b"
proof -
  have "signed_take_bit 63 (sint a + sint b) = sint a + sint b"
    using signed_take_bit_int_eq_self [of 63 "sint a + sint b"] assms by blast
  then show ?thesis by (simp add: sint_word_ariths)
qed

lemma sint_sub_in_range:
  fixes a b :: long
  assumes "- (2 ^ 63) \<le> sint a - sint b" "sint a - sint b < 2 ^ 63"
  shows "sint (a - b) = sint a - sint b"
proof -
  have "signed_take_bit 63 (sint a - sint b) = sint a - sint b"
    using signed_take_bit_int_eq_self [of 63 "sint a - sint b"] assms by blast
  then show ?thesis by (simp add: sint_word_ariths)
qed

lemma sint_scast_in_range:
  fixes n :: long
  assumes "- (2 ^ 31) \<le> sint n" "sint n < 2 ^ 31"
  shows "sint (scast n :: cint) = sint n"
proof -
  have "signed_take_bit 31 (sint n) = sint n"
    using signed_take_bit_int_eq_self [of 31 "sint n"] assms by blast
  then show ?thesis by (simp only: scast_eq sint_sbintrunc') simp
qed

section \<open>Theorems: the classifiers\<close>

text \<open>
  C6. \<open>cpu_state_from_avg\<close> compares strictly: an average is DANGER exactly when it
  is above 95, WARN exactly when it is above 85 and at most 95, OK exactly when it is at
  most 85. So the boundary values 85.0 and 95.0 fall into the lower state: 85.0 is OK,
  85.1 is WARN, 95.0 is WARN and 95.1 is DANGER.
\<close>

theorem cpu_state_from_avg_thresholds:
  "(cpu_state_from_avg avg = SYS_DANGER \<longleftrightarrow> avg > 95)
   \<and> (cpu_state_from_avg avg = SYS_WARN \<longleftrightarrow> 85 < avg \<and> avg \<le> 95)
   \<and> (cpu_state_from_avg avg = SYS_OK \<longleftrightarrow> avg \<le> 85)
   \<and> cpu_state_from_avg 85.0 = SYS_OK
   \<and> cpu_state_from_avg 85.1 = SYS_WARN
   \<and> cpu_state_from_avg 95.0 = SYS_WARN
   \<and> cpu_state_from_avg 95.1 = SYS_DANGER"
  by (simp add: cpu_state_from_avg_def)

text \<open>
  C8. For every memory snapshot whose \<open>mem_total_kb\<close> is 0,
  \<open>mem_state_from_capacity\<close> returns OK, whatever the other three fields hold.
\<close>

theorem mem_state_total_zero:
  "mem_total_kb m = 0 \<Longrightarrow> mem_state_from_capacity (Some m) = SYS_OK"
  by (simp add: mem_state_from_capacity_def)

theorem mem_state_total_zero_witness:
  "mem_total_kb \<lparr>mem_total_kb = 0, mem_avail_kb = 7, swap_total_kb = 100, swap_free_kb = 1\<rparr> = 0
   \<and> mem_state_from_capacity
         (Some \<lparr>mem_total_kb = 0, mem_avail_kb = 7, swap_total_kb = 100, swap_free_kb = 1\<rparr>)
       = SYS_OK"
  using mem_state_total_zero
          [of "\<lparr>mem_total_kb = 0, mem_avail_kb = 7, swap_total_kb = 100, swap_free_kb = 1\<rparr>"]
  by simp

text \<open>
  C1. The specification has \<open>mem_state_from_capacity\<close> return WARN when more than
  80 percent of the swap is used, and gives the snapshot total 100, available 50, swap
  total 100, swap free 10 as an instance. The code divides the used swap by the total
  and never multiplies by 100, so it compares a fraction with 80: at this snapshot it
  returns OK, where the classifier of the specification returns WARN.
\<close>

theorem mem_state_swap_ninety_percent:
  "mem_state_from_capacity
     (Some \<lparr>mem_total_kb = 100, mem_avail_kb = 50, swap_total_kb = 100, swap_free_kb = 10\<rparr>)
     = SYS_OK
   \<and> memState_spec 100 50 100 10 = SYS_WARN"
  by (simp add: mem_state_from_capacity_def memState_spec_def swapUsedPercent_spec_def
        double_of_long_def Let_def)

text \<open>
  Why the swap test cannot fire: for a snapshot with \<open>0 \<le> swap free \<le> swap total\<close> the
  quotient is at most 1, so the result is the one the same snapshot gives without swap.
\<close>

lemma mem_state_swap_has_no_effect:
  assumes "0 \<le> sint (swap_free_kb m)" "sint (swap_free_kb m) \<le> sint (swap_total_kb m)"
  shows "mem_state_from_capacity (Some m)
           = mem_state_from_capacity (Some (m\<lparr>swap_total_kb := 0, swap_free_kb := 0\<rparr>))"
proof -
  let ?t = "sint (swap_total_kb m)" and ?f = "sint (swap_free_kb m)"
  have "\<not> double_of_long (swap_total_kb m - swap_free_kb m) / double_of_long (swap_total_kb m) > 80"
    if "0 < ?t"
  proof -
    have "double_of_long (swap_total_kb m - swap_free_kb m) = real_of_int (?t - ?f)"
      using sint_sub_in_range [of "swap_total_kb m" "swap_free_kb m"] assms
        sint_lt [of "swap_total_kb m"]
      by (simp add: double_of_long_def)
    moreover have "0 < real_of_int ?t"
      by (rule iffD2 [OF of_int_0_less_iff]) (rule that)
    moreover have "real_of_int (?t - ?f) \<le> real_of_int ?t"
      by (rule iffD2 [OF of_int_le_iff]) (use assms in linarith)
    ultimately have "double_of_long (swap_total_kb m - swap_free_kb m)
                       / double_of_long (swap_total_kb m) \<le> 1"
      unfolding double_of_long_def by (simp only: divide_le_eq_1_pos)
    then show ?thesis by linarith
  qed
  then show ?thesis
    by (simp add: mem_state_from_capacity_def Let_def)
qed

text \<open>
  Apart from the swap test the code is the classifier of the specification: on the
  memory ratio alone the two agree for every snapshot.
\<close>

lemma mem_state_agrees_without_swap:
  "mem_state_from_capacity (Some (m\<lparr>swap_total_kb := 0, swap_free_kb := 0\<rparr>))
     = memState_spec (sint (mem_total_kb m)) (sint (mem_avail_kb m)) 0 0"
proof -
  have "mem_total_kb m = 0 \<longleftrightarrow> sint (mem_total_kb m) = 0"
    by (metis signed_word_eqI sint_0)
  then show ?thesis
    by (simp add: mem_state_from_capacity_def memState_spec_def swapUsedPercent_spec_def
          double_of_long_def Let_def)
qed

section \<open>Theorems: utilisation\<close>

lemma cpu_usage_unfold:
  "cpu_usage prev cur =
     (if tick_total cur - tick_total prev = 0 then 0
      else 100 * double_of_long ((tick_total cur - tick_total prev) - (idle cur - idle prev))
             / double_of_long (tick_total cur - tick_total prev))"
  unfolding cpu_usage_def tick_total_def Let_def by (rule refl)

text \<open>
  C2. For every pair of snapshots: when the four-counter sums are equal,
  \<open>cpu_usage\<close> returns 0; otherwise it returns 100 times (total delta minus idle
  delta) over the total delta, the deltas taken in the arithmetic of \<^verbatim>\<open>long\<close>.
  Nothing clamps the result: one pair of snapshots gives 200, another gives -100.
\<close>

theorem cpu_usage_formula:
  "(tick_total cur = tick_total prev \<longrightarrow> cpu_usage prev cur = 0)
   \<and> (tick_total cur \<noteq> tick_total prev \<longrightarrow>
        cpu_usage prev cur =
          100 * double_of_long ((tick_total cur - tick_total prev) - (idle cur - idle prev))
            / double_of_long (tick_total cur - tick_total prev))
   \<and> cpu_usage \<lparr>user = 0, nice = 0, system = 0, idle = 10\<rparr>
                \<lparr>user = 20, nice = 0, system = 0, idle = 0\<rparr> = 200
   \<and> cpu_usage \<lparr>user = 10, nice = 0, system = 0, idle = 0\<rparr>
                \<lparr>user = 0, nice = 0, system = 0, idle = 20\<rparr> = - 100"
proof (intro conjI)
  show "tick_total cur = tick_total prev \<longrightarrow> cpu_usage prev cur = 0"
    by (simp add: cpu_usage_unfold)
next
  show "tick_total cur \<noteq> tick_total prev \<longrightarrow>
        cpu_usage prev cur =
          100 * double_of_long ((tick_total cur - tick_total prev) - (idle cur - idle prev))
            / double_of_long (tick_total cur - tick_total prev)"
  proof
    assume "tick_total cur \<noteq> tick_total prev"
    then have "tick_total cur - tick_total prev \<noteq> 0" by simp
    then show "cpu_usage prev cur =
          100 * double_of_long ((tick_total cur - tick_total prev) - (idle cur - idle prev))
            / double_of_long (tick_total cur - tick_total prev)"
      by (subst cpu_usage_unfold) (simp only: if_False)
  qed
next
  show "cpu_usage \<lparr>user = 0, nice = 0, system = 0, idle = 10\<rparr>
                  \<lparr>user = 20, nice = 0, system = 0, idle = 0\<rparr> = 200"
    by (simp add: cpu_usage_def Let_def double_of_long_def)
next
  show "cpu_usage \<lparr>user = 10, nice = 0, system = 0, idle = 0\<rparr>
                  \<lparr>user = 0, nice = 0, system = 0, idle = 20\<rparr> = - 100"
    by (simp add: cpu_usage_def Let_def double_of_long_def)
qed

theorem cpu_usage_formula_witness:
  "tick_total \<lparr>user = 4, nice = 3, system = 2, idle = 1\<rparr>
     = tick_total \<lparr>user = 1, nice = 2, system = 3, idle = 4\<rparr>
   \<and> cpu_usage \<lparr>user = 1, nice = 2, system = 3, idle = 4\<rparr>
                \<lparr>user = 4, nice = 3, system = 2, idle = 1\<rparr> = 0
   \<and> tick_total \<lparr>user = 150, nice = 20, system = 60, idle = 1020\<rparr>
       \<noteq> tick_total \<lparr>user = 100, nice = 20, system = 30, idle = 1000\<rparr>
   \<and> cpu_usage \<lparr>user = 100, nice = 20, system = 30, idle = 1000\<rparr>
                \<lparr>user = 150, nice = 20, system = 60, idle = 1020\<rparr> = 80"
  using cpu_usage_formula
          [of "\<lparr>user = 4, nice = 3, system = 2, idle = 1\<rparr>"
              "\<lparr>user = 1, nice = 2, system = 3, idle = 4\<rparr>"]
        cpu_usage_formula
          [of "\<lparr>user = 150, nice = 20, system = 60, idle = 1020\<rparr>"
              "\<lparr>user = 100, nice = 20, system = 30, idle = 1000\<rparr>"]
  by (simp add: tick_total_def double_of_long_def)

text \<open>
  C10. \<open>cpu_usage\<close> depends only on the componentwise differences of the two
  snapshots: shifting both by the same four amounts \<open>d = (du, dn, ds, di)\<close> leaves the
  result unchanged.
\<close>

theorem cpu_usage_shift_invariant:
  "cpu_usage (shift_stat d prev) (shift_stat d cur) = cpu_usage prev cur"
  by (cases d) (simp add: cpu_usage_def shift_stat_def Let_def algebra_simps)

text \<open>
  For snapshots as the kernel hands them out nothing wraps, and the formula is the one
  over the integers.
\<close>

lemma sint_tick_total:
  assumes "plain_stat s"
  shows "sint (tick_total s) = ticks s"
proof -
  from assms have nn: "0 \<le> sint (user s)" "0 \<le> sint (nice s)" "0 \<le> sint (system s)"
    "0 \<le> sint (idle s)"
    and lt: "sint (user s) + sint (nice s) + sint (system s) + sint (idle s) < 2 ^ 63"
    by (simp_all add: plain_stat_def ticks_def)
  have 1: "sint (user s + nice s) = sint (user s) + sint (nice s)"
    using nn lt by (intro sint_add_in_range) linarith+
  have 2: "sint (user s + nice s + system s) = sint (user s) + sint (nice s) + sint (system s)"
    using nn lt 1 by (subst sint_add_in_range) linarith+
  have 3: "sint (user s + nice s + system s + idle s)
             = sint (user s) + sint (nice s) + sint (system s) + sint (idle s)"
    using nn lt 2 by (subst sint_add_in_range) linarith+
  then show ?thesis by (simp add: tick_total_def ticks_def)
qed

lemma cpu_usage_plain:
  assumes "plain_stat prev" "plain_stat cur"
  shows "cpu_usage prev cur =
           (if ticks cur = ticks prev then 0
            else 100 * real_of_int ((ticks cur - ticks prev) - (sint (idle cur) - sint (idle prev)))
                   / real_of_int (ticks cur - ticks prev))"
proof -
  have tp: "sint (tick_total prev) = ticks prev" and tc: "sint (tick_total cur) = ticks cur"
    using assms by (simp_all add: sint_tick_total)
  from assms have b: "0 \<le> ticks prev" "ticks prev < 2 ^ 63" "0 \<le> ticks cur" "ticks cur < 2 ^ 63"
    "0 \<le> sint (idle prev)" "sint (idle prev) \<le> ticks prev"
    "0 \<le> sint (idle cur)" "sint (idle cur) \<le> ticks cur"
    by (simp_all add: plain_stat_def ticks_def)
  have td: "sint (tick_total cur - tick_total prev) = ticks cur - ticks prev"
    using b tp tc by (subst sint_sub_in_range) linarith+
  have idl: "sint (idle cur - idle prev) = sint (idle cur) - sint (idle prev)"
    using b sint_lt [of "idle cur"] sint_lt [of "idle prev"]
    by (subst sint_sub_in_range) simp_all
  have busy: "sint ((tick_total cur - tick_total prev) - (idle cur - idle prev))
                = (ticks cur - ticks prev) - (sint (idle cur) - sint (idle prev))"
    using b td idl by (subst sint_sub_in_range) linarith+
  have z: "tick_total cur - tick_total prev = 0 \<longleftrightarrow> ticks cur = ticks prev"
  proof
    assume "tick_total cur - tick_total prev = 0"
    then have "sint (tick_total cur - tick_total prev) = 0" by simp
    with td show "ticks cur = ticks prev" by simp
  next
    assume "ticks cur = ticks prev"
    with tp tc have "sint (tick_total cur) = sint (tick_total prev)" by simp
    then have "tick_total cur = tick_total prev" by (rule signed_word_eqI)
    then show "tick_total cur - tick_total prev = 0" by simp
  qed
  show ?thesis
    by (subst cpu_usage_unfold) (simp only: z double_of_long_def td busy)
qed

section \<open>Theorems: processor capacity\<close>

text \<open>
  C3. The specification has \<open>read_cpu_capacity\<close> succeed in every environment and
  treat a missing frequency file as a normal case. The code prints its notice for the
  missing file and then calls \<^verbatim>\<open>fclose\<close> on the null stream: on a machine with four
  processors and no frequency file it does not return.
\<close>

theorem read_cpu_capacity_no_freq_file:
  "read_cpu_capacity (Some cap) \<lparr>nprocessors_onln = 4, cpuinfo_max_freq = None\<rparr>
     = (''Frequency info is not exposed.'', Inl Null_Stream)"
  by (simp add: read_cpu_capacity_def Let_def)

text \<open>
  With the frequency file present the function returns 0, the frequency is the number
  read (or stays -1), and the core count is at least 1 for every processor count that
  fits an \<^verbatim>\<open>int\<close>.
\<close>

lemma read_cpu_capacity_with_freq_file:
  assumes "cpuinfo_max_freq env = Some scanned"
  shows "\<exists>cap'. read_cpu_capacity (Some cap) env = ([], Inr (0, Some cap'))
           \<and> max_freq_khz cap' = (case scanned of None \<Rightarrow> - 1 | Some v \<Rightarrow> v)
           \<and> (sint (nprocessors_onln env) < 2 ^ 31 \<longrightarrow> 1 \<le> sint (cores cap'))"
proof -
  let ?n = "nprocessors_onln env"
  let ?c = "if sint ?n < 1 then 1 else ?n"
  have "1 \<le> sint (scast ?c :: cint)" if "sint ?n < 2 ^ 31"
  proof (cases "sint ?n < 1")
    case True
    then show ?thesis by simp
  next
    case False
    with that have "sint (scast ?n :: cint) = sint ?n"
      by (intro sint_scast_in_range) simp_all
    with False show ?thesis by simp
  qed
  then show ?thesis
    using assms by (cases scanned) (simp_all add: read_cpu_capacity_def Let_def)
qed

section \<open>Theorems: the sample window\<close>

declare avg_loop.simps [simp del]

lemma avg_loop_sum:
  "0 \<le> i \<Longrightarrow> count w \<le> CPU_WINDOW \<Longrightarrow>
   avg_loop w i acc = Inr (acc + (\<Sum>k = nat i..<nat (count w). samples w ! k))"
proof (induction w i acc rule: avg_loop.induct)
  case (1 w i acc)
  show ?case
  proof (cases "i < count w")
    case True
    with "1.prems" have inb: "0 \<le> i \<and> i < CPU_WINDOW" by simp
    from True "1.prems" have lt: "nat i < nat (count w)" by simp
    have "avg_loop w i acc = avg_loop w (i + 1) (acc + samples w ! nat i)"
      using True inb by (subst avg_loop.simps) simp
    also have "\<dots> = Inr (acc + samples w ! nat i + (\<Sum>k = nat (i + 1)..<nat (count w). samples w ! k))"
      using "1.IH" [OF True inb] "1.prems" by simp
    also have "nat (i + 1) = Suc (nat i)" using "1.prems" by simp
    finally show ?thesis
      using lt by (simp add: sum.atLeast_Suc_lessThan add.assoc)
  next
    case False
    then have "avg_loop w i acc = Inr acc" by (subst avg_loop.simps) simp
    moreover from False "1.prems" have "nat (count w) \<le> nat i" by simp
    ultimately show ?thesis by simp
  qed
qed

lemma avg_loop_fault:
  "0 \<le> i \<Longrightarrow> i \<le> CPU_WINDOW \<Longrightarrow> CPU_WINDOW < count w \<Longrightarrow>
   avg_loop w i acc = Inl Out_Of_Bounds"
proof (induction w i acc rule: avg_loop.induct)
  case (1 w i acc)
  show ?case
  proof (cases "i < CPU_WINDOW")
    case True
    with "1.prems" have a: "i < count w" and b: "0 \<le> i \<and> i < CPU_WINDOW" by simp_all
    have "avg_loop w i acc = avg_loop w (i + 1) (acc + samples w ! nat i)"
      using a b by (subst avg_loop.simps) simp
    also have "\<dots> = Inl Out_Of_Bounds"
      using "1.IH" [OF a b] "1.prems" True by simp
    finally show ?thesis .
  next
    case False
    with "1.prems" show ?thesis by (subst avg_loop.simps) simp
  qed
qed

lemma cpu_window_avg_fault:
  "CPU_WINDOW < count w \<Longrightarrow> cpu_window_avg w = Inl Out_Of_Bounds"
  using avg_loop_fault [of 0 w 0] by (simp add: cpu_window_avg_def CPU_WINDOW_def)

lemma cpu_window_avg_sum:
  assumes "count w \<le> CPU_WINDOW"
  shows "cpu_window_avg w =
           Inr (if count w = 0 then 0
                else (\<Sum>k<nat (count w). samples w ! k) / real_of_int (count w))"
  using avg_loop_sum [of 0 w 0, OF _ assms]
  by (simp add: cpu_window_avg_def atLeast0LessThan)

lemma sum_nth_take:
  fixes xs :: "real list"
  shows "n \<le> length xs \<Longrightarrow> (\<Sum>k<n. xs ! k) = sum_list (take n xs)"
  by (simp add: sum_list_sum_nth atLeast0LessThan)

lemma sum_nth_drop:
  fixes xs :: "real list"
  shows "(\<Sum>k = m..<length xs. xs ! k) = sum_list (drop m xs)"
proof (cases "m \<le> length xs")
  case True
  have "sum_list (drop m xs) = (\<Sum>i = 0..<length xs - m. xs ! (m + i))"
    by (simp add: sum_list_sum_nth)
  also have "\<dots> = (\<Sum>k = m..<length xs. xs ! k)"
    using True sum.shift_bounds_nat_ivl [of "\<lambda>k. xs ! k" 0 m "length xs - m"]
    by (simp add: add.commute)
  finally show ?thesis by simp
next
  case False
  then show ?thesis by simp
qed


lemma ring_holds_init: "ten_cells w0 \<Longrightarrow> ring_holds (cpu_window_init w0) []"
  by (simp add: ring_holds_def cpu_window_init_def ten_cells_def)

lemma ring_holds_add:
  assumes "ring_holds w vs"
  shows "\<exists>w'. cpu_window_add w v = Inr w' \<and> ring_holds w' (vs @ [v])"
proof -
  let ?n = "length vs"
  let ?w' = "w\<lparr>samples := (samples w)[nat (index w) := v],
                 index := (index w + 1) mod CPU_WINDOW,
                 count := (if count w < CPU_WINDOW then count w + 1 else count w)\<rparr>"
  from assms have len: "length (samples w) = 10"
    and idx: "index w = int (?n mod 10)"
    and cnt: "count w = int (min ?n 10)"
    and cells: "\<And>k. k < ?n \<Longrightarrow> ?n \<le> k + 10 \<Longrightarrow> samples w ! (k mod 10) = vs ! k"
    by (simp_all add: ring_holds_def ten_cells_def CPU_WINDOW_def)
  have add: "cpu_window_add w v = Inr ?w'"
    using idx by (simp add: cpu_window_add_def CPU_WINDOW_def)
  have nidx: "nat (index w) = ?n mod 10" using idx by simp
  have "int (Suc ?n mod 10) = int (Suc (?n mod 10) mod 10)"
    by (simp only: mod_Suc_eq)
  also have "\<dots> = (int (?n mod 10) + 1) mod 10"
    by (simp add: zmod_int add.commute)
  finally have "(int (?n mod 10) + 1) mod 10 = int (Suc ?n mod 10)"
    by simp
  then have "index ?w' = int (Suc ?n mod 10)"
    using idx by (simp add: CPU_WINDOW_def)
  moreover have "count ?w' = int (min (Suc ?n) 10)"
    using cnt by (simp add: CPU_WINDOW_def min_def)
  moreover have "samples ?w' ! (k mod 10) = (vs @ [v]) ! k"
    if k: "k < Suc ?n" "Suc ?n \<le> k + 10" for k
  proof (cases "k = ?n")
    case True
    then show ?thesis using len nidx by simp
  next
    case False
    with k have lt: "k < ?n" and near: "?n \<le> k + 10" and d: "?n - k < 10" "0 < ?n - k"
      by simp_all
    have "k mod 10 \<noteq> ?n mod 10"
    proof
      assume "k mod 10 = ?n mod 10"
      then have "(?n - k) mod 10 = 0"
        using lt by (metis less_imp_le_nat mod_eq_dvd_iff_nat dvd_imp_mod_0)
      with d show False by simp
    qed
    then have "samples ?w' ! (k mod 10) = samples w ! (k mod 10)"
      using nidx by simp
    also have "\<dots> = vs ! k" using cells [OF lt near] .
    also have "\<dots> = (vs @ [v]) ! k" using lt by (simp add: nth_append)
    finally show ?thesis .
  qed
  ultimately have "ring_holds ?w' (vs @ [v])"
    using len by (simp add: ring_holds_def ten_cells_def CPU_WINDOW_def)
  with add show ?thesis by blast
qed

lemma cpu_window_add_all_snoc:
  "cpu_window_add_all w (vs @ [v]) =
     (case cpu_window_add_all w vs of Inl e \<Rightarrow> Inl e | Inr w' \<Rightarrow> cpu_window_add w' v)"
  by (induction vs arbitrary: w) (simp_all split: sum.splits)

lemma ring_holds_add_all:
  assumes "ten_cells w0"
  shows "\<exists>w. cpu_window_add_all (cpu_window_init w0) vs = Inr w \<and> ring_holds w vs"
proof (induction vs rule: rev_induct)
  case Nil
  show ?case using ring_holds_init [OF assms] by simp
next
  case (snoc v vs)
  then obtain w where w: "cpu_window_add_all (cpu_window_init w0) vs = Inr w" "ring_holds w vs"
    by blast
  from ring_holds_add [OF w(2), of v] obtain w'
    where "cpu_window_add w v = Inr w'" "ring_holds w' (vs @ [v])" by blast
  with w(1) show ?case by (simp add: cpu_window_add_all_snoc)
qed

lemma ring_holds_sum:
  assumes "ring_holds w vs"
  shows "(\<Sum>k<nat (count w). samples w ! k) = sum_list (drop (length vs - 10) vs)"
proof -
  let ?n = "length vs"
  from assms have cnt: "nat (count w) = min ?n 10"
    and cells: "\<And>k. k < ?n \<Longrightarrow> ?n \<le> k + 10 \<Longrightarrow> samples w ! (k mod 10) = vs ! k"
    by (simp_all add: ring_holds_def)
  show ?thesis
  proof (cases "?n \<le> 10")
    case True
    have "(\<Sum>k<?n. samples w ! k) = (\<Sum>k<?n. vs ! k)"
    proof (rule sum.cong [OF refl])
      fix k assume "k \<in> {..<?n}"
      then have "k < ?n" "?n \<le> k + 10" "k mod 10 = k" using True by simp_all
      with cells [of k] show "samples w ! k = vs ! k" by simp
    qed
    also have "\<dots> = sum_list vs" by (simp add: sum_list_sum_nth atLeast0LessThan)
    finally show ?thesis using True cnt by simp
  next
    case False
    then have big: "10 < ?n" by simp
    let ?S = "{?n - 10..<?n}"
    have inj: "inj_on (\<lambda>k. k mod 10) ?S"
    proof (rule inj_onI)
      fix x y assume xy: "x \<in> ?S" "y \<in> ?S" "x mod 10 = y mod 10"
      show "x = y"
      proof (rule ccontr)
        assume ne: "x \<noteq> y"
        define a where "a = min x y"
        define b where "b = max x y"
        have ab: "a < b" "b - a < 10" "a mod 10 = b mod 10"
          using xy ne by (auto simp: a_def b_def min_def max_def)
        then have "(b - a) mod 10 = 0"
          by (metis less_imp_le_nat mod_eq_dvd_iff_nat dvd_imp_mod_0)
        with ab show False by simp
      qed
    qed
    have "(\<lambda>k. k mod 10) ` ?S \<subseteq> {..<10}" by auto
    moreover have "card ((\<lambda>k. k mod 10) ` ?S) = card {..<10::nat}"
      using big by (simp add: card_image [OF inj])
    ultimately have img: "(\<lambda>k. k mod 10) ` ?S = {..<10}"
      by (intro card_subset_eq) simp_all
    have "(\<Sum>j<10. samples w ! j) = (\<Sum>k\<in>?S. samples w ! (k mod 10))"
      using sum.reindex [OF inj, of "\<lambda>j. samples w ! j"] by (simp add: img)
    also have "\<dots> = (\<Sum>k\<in>?S. vs ! k)"
      by (rule sum.cong [OF refl]) (use cells in auto)
    also have "\<dots> = sum_list (drop (?n - 10) vs)" by (rule sum_nth_drop)
    finally show ?thesis using big cnt by simp
  qed
qed

lemma ring_holds_avg:
  assumes "ring_holds w vs"
  shows "cpu_window_avg w =
           Inr (if vs = [] then 0
                else sum_list (drop (length vs - 10) vs) / real (min (length vs) 10))"
proof -
  from assms have cnt: "count w = int (min (length vs) 10)" by (simp add: ring_holds_def)
  then have "count w \<le> CPU_WINDOW" by (simp add: CPU_WINDOW_def)
  from cpu_window_avg_sum [OF this] ring_holds_sum [OF assms] cnt
  show ?thesis by (auto simp: min_def)
qed


lemma ten_cells_list:
  assumes "ten_cells w0"
  obtains a0 a1 a2 a3 a4 a5 a6 a7 a8 a9
  where "samples w0 = [a0, a1, a2, a3, a4, a5, a6, a7, a8, a9]"
proof -
  from assms have "length (samples w0) = Suc (Suc (Suc (Suc (Suc (Suc (Suc (Suc (Suc (Suc 0)))))))))"
    by (simp add: ten_cells_def CPU_WINDOW_def)
  then show ?thesis
    using that by (auto simp: length_Suc_conv)
qed

text \<open>
  C5. A window of ten cells, freshly initialised, to which the eleven values
  0, 1, ..., 10 are added in order: every call stays inside the array, the first value
  is overwritten by the last, the cells hold exactly the values 1 to 10 (10 in cell 0,
  then 1 to 9), and the average is 5.5.
\<close>

theorem cpu_window_eleven_values:
  assumes "ten_cells w0"
  shows "\<exists>w. cpu_window_add_all (cpu_window_init w0) [0, 1, 2, 3, 4, 5, 6, 7, 8, 9, 10] = Inr w
             \<and> samples w = [10, 1, 2, 3, 4, 5, 6, 7, 8, 9]
             \<and> index w = 1 \<and> count w = CPU_WINDOW
             \<and> cpu_window_avg w = Inr 5.5"
proof -
  from ring_holds_add_all [OF assms, of "[0, 1, 2, 3, 4, 5, 6, 7, 8, 9, 10]"]
  obtain w where w: "cpu_window_add_all (cpu_window_init w0) [0, 1, 2, 3, 4, 5, 6, 7, 8, 9, 10] = Inr w"
    and rh: "ring_holds w [0, 1, 2, 3, 4, 5, 6, 7, 8, 9, 10]"
    by blast
  from ten_cells_list [OF assms] obtain a0 a1 a2 a3 a4 a5 a6 a7 a8 a9
    where cells: "samples w0 = [a0, a1, a2, a3, a4, a5, a6, a7, a8, a9]" by blast
  have "cpu_window_add_all (cpu_window_init w0) [0, 1, 2, 3, 4, 5, 6, 7, 8, 9, 10]
          = Inr (w0\<lparr>samples := [10, 1, 2, 3, 4, 5, 6, 7, 8, 9], index := 1, count := 10\<rparr>)"
    by (simp add: cpu_window_add_def cpu_window_init_def CPU_WINDOW_def cells)
  with w have eq: "w = w0\<lparr>samples := [10, 1, 2, 3, 4, 5, 6, 7, 8, 9], index := 1, count := 10\<rparr>"
    by simp
  have "cpu_window_avg w = Inr 5.5"
    using ring_holds_avg [OF rh] by simp
  with w eq show ?thesis by (simp add: CPU_WINDOW_def)
qed

theorem cpu_window_eleven_values_witness:
  "ten_cells \<lparr>samples = [3, 1, 4, 1, 5, 9, 2, 6, 5, 3], index = 7, count = 2\<rparr>
   \<and> (\<exists>w. cpu_window_add_all
              (cpu_window_init \<lparr>samples = [3, 1, 4, 1, 5, 9, 2, 6, 5, 3], index = 7, count = 2\<rparr>)
              [0, 1, 2, 3, 4, 5, 6, 7, 8, 9, 10] = Inr w
           \<and> samples w = [10, 1, 2, 3, 4, 5, 6, 7, 8, 9]
           \<and> index w = 1 \<and> count w = CPU_WINDOW
           \<and> cpu_window_avg w = Inr 5.5)"
  using cpu_window_eleven_values
          [of "\<lparr>samples = [3, 1, 4, 1, 5, 9, 2, 6, 5, 3], index = 7, count = 2\<rparr>"]
  by (simp add: ten_cells_def CPU_WINDOW_def)

text \<open>
  C7. \<open>cpu_window_avg\<close> returns the sum of the first \<open>count\<close> cells divided by
  \<open>count\<close>, and 0 when \<open>count\<close> is 0, for every window of ten cells whose count
  does not exceed the capacity. A freshly initialised window averages 0. After
  initialisation and any sequence of additions the first \<open>count\<close> cells are the last
  (at most ten) values added, so the average is their mean; after exactly 10, 20, 30
  it is 20.
\<close>

theorem cpu_window_avg_mean:
  "(ten_cells w \<and> count w \<le> CPU_WINDOW \<longrightarrow>
      cpu_window_avg w =
        Inr (if count w = 0 then 0
             else sum_list (take (nat (count w)) (samples w)) / real_of_int (count w)))
   \<and> cpu_window_avg (cpu_window_init w0) = Inr 0
   \<and> (ten_cells w0 \<longrightarrow>
        (\<exists>w'. cpu_window_add_all (cpu_window_init w0) vs = Inr w'
              \<and> cpu_window_avg w' =
                  Inr (if vs = [] then 0
                       else sum_list (drop (length vs - nat CPU_WINDOW) vs)
                              / real (min (length vs) (nat CPU_WINDOW)))))
   \<and> (ten_cells w0 \<longrightarrow>
        (\<exists>w'. cpu_window_add_all (cpu_window_init w0) [10, 20, 30] = Inr w'
              \<and> cpu_window_avg w' = Inr 20))"
proof (intro conjI impI)
  assume a: "ten_cells w \<and> count w \<le> CPU_WINDOW"
  then have "nat (count w) \<le> length (samples w)"
    by (auto simp: ten_cells_def CPU_WINDOW_def)
  then have "(\<Sum>k<nat (count w). samples w ! k) = sum_list (take (nat (count w)) (samples w))"
    by (rule sum_nth_take)
  with cpu_window_avg_sum [of w] a
  show "cpu_window_avg w =
        Inr (if count w = 0 then 0
             else sum_list (take (nat (count w)) (samples w)) / real_of_int (count w))"
    by simp
next
  have "count (cpu_window_init w0) \<le> CPU_WINDOW"
    by (simp add: cpu_window_init_def CPU_WINDOW_def)
  from cpu_window_avg_sum [OF this]
  show "cpu_window_avg (cpu_window_init w0) = Inr 0"
    by (simp add: cpu_window_init_def)
next
  assume "ten_cells w0"
  from ring_holds_add_all [OF this, of vs] obtain w'
    where w': "cpu_window_add_all (cpu_window_init w0) vs = Inr w'" "ring_holds w' vs"
    by blast
  from ring_holds_avg [OF w'(2)] w'(1)
  show "\<exists>w'. cpu_window_add_all (cpu_window_init w0) vs = Inr w'
              \<and> cpu_window_avg w' =
                  Inr (if vs = [] then 0
                       else sum_list (drop (length vs - nat CPU_WINDOW) vs)
                              / real (min (length vs) (nat CPU_WINDOW)))"
    by (simp add: CPU_WINDOW_def)
next
  assume "ten_cells w0"
  from ring_holds_add_all [OF this, of "[10, 20, 30]"] obtain w'
    where w': "cpu_window_add_all (cpu_window_init w0) [10, 20, 30] = Inr w'"
      "ring_holds w' [10, 20, 30]"
    by blast
  from ring_holds_avg [OF w'(2)] have "cpu_window_avg w' = Inr 20" by simp
  with w'(1)
  show "\<exists>w'. cpu_window_add_all (cpu_window_init w0) [10, 20, 30] = Inr w'
              \<and> cpu_window_avg w' = Inr 20"
    by blast
qed

theorem cpu_window_avg_mean_witness:
  "ten_cells \<lparr>samples = [3, 1, 4, 1, 5, 9, 2, 6, 5, 3], index = 3, count = 4\<rparr>
   \<and> count \<lparr>samples = [3, 1, 4, 1, 5, 9, 2, 6, 5, 3], index = 3, count = 4\<rparr> \<le> CPU_WINDOW
   \<and> cpu_window_avg \<lparr>samples = [3, 1, 4, 1, 5, 9, 2, 6, 5, 3], index = 3, count = 4\<rparr>
       = Inr (9 / 4)
   \<and> (\<exists>w'. cpu_window_add_all
               (cpu_window_init \<lparr>samples = [3, 1, 4, 1, 5, 9, 2, 6, 5, 3], index = 3, count = 4\<rparr>)
               [10, 20, 30] = Inr w'
            \<and> cpu_window_avg w' = Inr 20)"
  using cpu_window_avg_mean
          [of "\<lparr>samples = [3, 1, 4, 1, 5, 9, 2, 6, 5, 3], index = 3, count = 4\<rparr>"
              "\<lparr>samples = [3, 1, 4, 1, 5, 9, 2, 6, 5, 3], index = 3, count = 4\<rparr>" "[]"]
  by (simp add: ten_cells_def CPU_WINDOW_def)

section \<open>Theorems: the memory snapshot\<close>

lemma meminfo_scan_Cons:
  "meminfo_scan cap cnt ((key, v, unit) # rest) =
     (if cnt + (if key \<in> mem_keys then 1 else 0) = 4
      then (store_key key v cap, 4, rest)
      else meminfo_scan (store_key key v cap) (cnt + (if key \<in> mem_keys then 1 else 0)) rest)"
  by (simp add: store_key_def mem_keys_def)

lemma matched_simps [simp]:
  "matched [] = 0"
  "matched ((key, v, unit) # xs) = (if key \<in> mem_keys then 1 else 0) + matched xs"
  by (simp_all add: matched_def)

lemma store_key_other:
  "key \<noteq> ''MemTotal:'' \<Longrightarrow> mem_total_kb (store_key key v cap) = mem_total_kb cap"
  "key \<noteq> ''MemAvailable:'' \<Longrightarrow> mem_avail_kb (store_key key v cap) = mem_avail_kb cap"
  "key \<noteq> ''SwapTotal:'' \<Longrightarrow> swap_total_kb (store_key key v cap) = swap_total_kb cap"
  "key \<noteq> ''SwapFree:'' \<Longrightarrow> swap_free_kb (store_key key v cap) = swap_free_kb cap"
  by (simp_all add: store_key_def)

lemma meminfo_scan_seen:
  "\<exists>m cnt' seen rest.
      meminfo_scan cap cnt f = (m, cnt', rest) \<and> f = seen @ rest
      \<and> (''MemTotal:'' \<notin> fst ` set seen \<longrightarrow> mem_total_kb m = mem_total_kb cap)
      \<and> (''MemAvailable:'' \<notin> fst ` set seen \<longrightarrow> mem_avail_kb m = mem_avail_kb cap)
      \<and> (''SwapTotal:'' \<notin> fst ` set seen \<longrightarrow> swap_total_kb m = swap_total_kb cap)
      \<and> (''SwapFree:'' \<notin> fst ` set seen \<longrightarrow> swap_free_kb m = swap_free_kb cap)
      \<and> (cnt < 4 \<longrightarrow> (\<forall>k<length seen. cnt + int (matched (take k seen)) < 4))"
proof (induction f arbitrary: cap cnt)
  case Nil
  show ?case by simp
next
  case (Cons t f)
  obtain key v unit where t: "t = (key, v, unit)" by (cases t)
  let ?cap = "store_key key v cap"
  let ?cnt = "cnt + (if key \<in> mem_keys then 1 else 0)"
  show ?case
  proof (cases "?cnt = 4")
    case True
    then have "meminfo_scan cap cnt (t # f) = (?cap, 4, f)"
      unfolding t by (subst meminfo_scan_Cons) simp
    then have sk: "meminfo_scan cap cnt (t # f) = (?cap, 4, f)" .
    have "(t # f) = [t] @ f" by simp
    moreover have "''MemTotal:'' \<notin> fst ` set [t] \<longrightarrow> mem_total_kb ?cap = mem_total_kb cap"
      and "''MemAvailable:'' \<notin> fst ` set [t] \<longrightarrow> mem_avail_kb ?cap = mem_avail_kb cap"
      and "''SwapTotal:'' \<notin> fst ` set [t] \<longrightarrow> swap_total_kb ?cap = swap_total_kb cap"
      and "''SwapFree:'' \<notin> fst ` set [t] \<longrightarrow> swap_free_kb ?cap = swap_free_kb cap"
      by (simp_all add: t store_key_other)
    moreover have "cnt < 4 \<longrightarrow> (\<forall>k<length [t]. cnt + int (matched (take k [t])) < 4)"
      by simp
    ultimately show ?thesis using sk by blast
  next
    case False
    from Cons.IH [of ?cap ?cnt] obtain m cnt' seen rest where
      run: "meminfo_scan ?cap ?cnt f = (m, cnt', rest)" and f: "f = seen @ rest"
      and k1: "''MemTotal:'' \<notin> fst ` set seen \<longrightarrow> mem_total_kb m = mem_total_kb ?cap"
      and k2: "''MemAvailable:'' \<notin> fst ` set seen \<longrightarrow> mem_avail_kb m = mem_avail_kb ?cap"
      and k3: "''SwapTotal:'' \<notin> fst ` set seen \<longrightarrow> swap_total_kb m = swap_total_kb ?cap"
      and k4: "''SwapFree:'' \<notin> fst ` set seen \<longrightarrow> swap_free_kb m = swap_free_kb ?cap"
      and early: "?cnt < 4 \<longrightarrow> (\<forall>k<length seen. ?cnt + int (matched (take k seen)) < 4)"
      by blast
    have scan: "meminfo_scan cap cnt (t # f) = (m, cnt', rest)"
      unfolding t using False run by (subst meminfo_scan_Cons) simp
    have split: "t # f = (t # seen) @ rest" using f by simp
    have e: "cnt + int (matched (take k (t # seen))) < 4"
      if "cnt < 4" "k < length (t # seen)" for k
    proof (cases k)
      case 0
      with that show ?thesis by simp
    next
      case (Suc j)
      from that(1) False have "?cnt < 4" by (simp split: if_splits)
      moreover from that(2) Suc have "j < length seen" by simp
      ultimately have "?cnt + int (matched (take j seen)) < 4" using early by blast
      then show ?thesis unfolding Suc t by (simp split: if_splits)
    qed
    have "''MemTotal:'' \<notin> fst ` set (t # seen) \<longrightarrow> mem_total_kb m = mem_total_kb cap"
      and "''MemAvailable:'' \<notin> fst ` set (t # seen) \<longrightarrow> mem_avail_kb m = mem_avail_kb cap"
      and "''SwapTotal:'' \<notin> fst ` set (t # seen) \<longrightarrow> swap_total_kb m = swap_total_kb cap"
      and "''SwapFree:'' \<notin> fst ` set (t # seen) \<longrightarrow> swap_free_kb m = swap_free_kb cap"
      using k1 k2 k3 k4 by (auto simp: t store_key_other)
    moreover have "cnt < 4 \<longrightarrow> (\<forall>k<length (t # seen). cnt + int (matched (take k (t # seen))) < 4)"
      using e by blast
    ultimately show ?thesis using scan split by blast
  qed
qed

lemma all_keys_matched:
  assumes "mem_keys \<subseteq> fst ` set xs"
  shows "4 \<le> matched xs"
proof -
  let ?hits = "filter (\<lambda>t. fst t \<in> mem_keys) xs"
  have "mem_keys \<subseteq> fst ` set ?hits" using assms by force
  then have "card mem_keys \<le> card (fst ` set ?hits)"
    by (intro card_mono) simp_all
  also have "\<dots> \<le> card (set ?hits)" by (rule card_image_le) simp
  also have "\<dots> \<le> length ?hits" by (rule card_length)
  finally have "card mem_keys \<le> matched xs" by (simp add: matched_def)
  moreover have "card mem_keys = 4" by (simp add: mem_keys_def)
  ultimately show ?thesis by simp
qed


lemma read_mem_stat_unfold:
  "read_mem_stat (Some cap) None = (- 1, Some (zeroed cap))"
  "read_mem_stat (Some cap) (Some f) = (0, Some (fst (meminfo_scan (zeroed cap) 0 f)))"
  by (simp_all add: read_mem_stat_def zeroed_def Let_def split: prod.splits)

lemma read_mem_stat_null: "read_mem_stat None src = (- 1, None)"
  by (simp add: read_mem_stat_def)

text \<open>
  C9. Called with a record to fill, \<open>read_mem_stat\<close> returns -1 exactly when the
  source does not open, and 0 for every content of a source that opens. The scan reads
  a front part \<open>seen\<close> of the triples and leaves \<open>rest\<close> unread; each of the four
  fields whose key is not among the keys read is 0; and the scan reads no triple beyond
  a front part of the file that holds all four keys.
\<close>

theorem read_mem_stat_contract:
  "fst (read_mem_stat (Some cap) src) = (if src = None then - 1 else 0)
   \<and> read_mem_stat (Some cap) None = (- 1, Some (zeroed cap))
   \<and> (\<exists>m cnt seen rest.
          read_mem_stat (Some cap) (Some f) = (0, Some m)
          \<and> meminfo_scan (zeroed cap) 0 f = (m, cnt, rest) \<and> f = seen @ rest
          \<and> (''MemTotal:'' \<notin> fst ` set seen \<longrightarrow> mem_total_kb m = 0)
          \<and> (''MemAvailable:'' \<notin> fst ` set seen \<longrightarrow> mem_avail_kb m = 0)
          \<and> (''SwapTotal:'' \<notin> fst ` set seen \<longrightarrow> swap_total_kb m = 0)
          \<and> (''SwapFree:'' \<notin> fst ` set seen \<longrightarrow> swap_free_kb m = 0)
          \<and> (\<forall>k. mem_keys \<subseteq> fst ` set (take k f) \<longrightarrow> length seen \<le> k))"
proof (intro conjI)
  show "fst (read_mem_stat (Some cap) src) = (if src = None then - 1 else 0)"
    by (cases src) (simp_all add: read_mem_stat_unfold)
next
  show "read_mem_stat (Some cap) None = (- 1, Some (zeroed cap))"
    by (rule read_mem_stat_unfold)
next
  from meminfo_scan_seen [of "zeroed cap" 0 f] obtain m cnt seen rest where
    run: "meminfo_scan (zeroed cap) 0 f = (m, cnt, rest)" and f: "f = seen @ rest"
    and k1: "''MemTotal:'' \<notin> fst ` set seen \<longrightarrow> mem_total_kb m = mem_total_kb (zeroed cap)"
    and k2: "''MemAvailable:'' \<notin> fst ` set seen \<longrightarrow> mem_avail_kb m = mem_avail_kb (zeroed cap)"
    and k3: "''SwapTotal:'' \<notin> fst ` set seen \<longrightarrow> swap_total_kb m = swap_total_kb (zeroed cap)"
    and k4: "''SwapFree:'' \<notin> fst ` set seen \<longrightarrow> swap_free_kb m = swap_free_kb (zeroed cap)"
    and early: "(0::int) < 4 \<longrightarrow> (\<forall>k<length seen. 0 + int (matched (take k seen)) < 4)"
    by blast
  have ret: "read_mem_stat (Some cap) (Some f) = (0, Some m)"
    using run by (simp add: read_mem_stat_unfold)
  have stop: "length seen \<le> k" if all: "mem_keys \<subseteq> fst ` set (take k f)" for k
  proof (rule ccontr)
    assume "\<not> length seen \<le> k"
    then have lt: "k < length seen" by simp
    then have "take k f = take k seen" using f by simp
    with all have "4 \<le> matched (take k seen)" using all_keys_matched by simp
    moreover from early lt have "int (matched (take k seen)) < 4" by simp
    ultimately show False by simp
  qed
  have z: "mem_total_kb (zeroed cap) = 0" "mem_avail_kb (zeroed cap) = 0"
    "swap_total_kb (zeroed cap) = 0" "swap_free_kb (zeroed cap) = 0"
    by (simp_all add: zeroed_def)
  show "\<exists>m cnt seen rest.
          read_mem_stat (Some cap) (Some f) = (0, Some m)
          \<and> meminfo_scan (zeroed cap) 0 f = (m, cnt, rest) \<and> f = seen @ rest
          \<and> (''MemTotal:'' \<notin> fst ` set seen \<longrightarrow> mem_total_kb m = 0)
          \<and> (''MemAvailable:'' \<notin> fst ` set seen \<longrightarrow> mem_avail_kb m = 0)
          \<and> (''SwapTotal:'' \<notin> fst ` set seen \<longrightarrow> swap_total_kb m = 0)
          \<and> (''SwapFree:'' \<notin> fst ` set seen \<longrightarrow> swap_free_kb m = 0)
          \<and> (\<forall>k. mem_keys \<subseteq> fst ` set (take k f) \<longrightarrow> length seen \<le> k)"
    using ret run f k1 k2 k3 k4 stop unfolding z by blast
qed

theorem read_mem_stat_contract_witness:
  "read_mem_stat
     (Some \<lparr>mem_total_kb = 9, mem_avail_kb = 9, swap_total_kb = 9, swap_free_kb = 9\<rparr>)
     (Some [(''MemTotal:'', 8388608, ''kB''), (''MemFree:'', 1048576, ''kB''),
            (''MemAvailable:'', 4194304, ''kB''), (''SwapTotal:'', 4194304, ''kB''),
            (''SwapFree:'', 2097152, ''kB''), (''Dirty:'', 12, ''kB'')])
     = (0, Some \<lparr>mem_total_kb = 8388608, mem_avail_kb = 4194304,
                  swap_total_kb = 4194304, swap_free_kb = 2097152\<rparr>)
   \<and> snd (snd (meminfo_scan
        (zeroed \<lparr>mem_total_kb = 9, mem_avail_kb = 9, swap_total_kb = 9, swap_free_kb = 9\<rparr>) 0
        [(''MemTotal:'', 8388608, ''kB''), (''MemFree:'', 1048576, ''kB''),
         (''MemAvailable:'', 4194304, ''kB''), (''SwapTotal:'', 4194304, ''kB''),
         (''SwapFree:'', 2097152, ''kB''), (''Dirty:'', 12, ''kB'')]))
       = [(''Dirty:'', 12, ''kB'')]
   \<and> read_mem_stat
       (Some \<lparr>mem_total_kb = 9, mem_avail_kb = 9, swap_total_kb = 9, swap_free_kb = 9\<rparr>)
       (Some [(''MemTotal:'', 8388608, ''kB''), (''Cached:'', 77, ''kB'')])
       = (0, Some \<lparr>mem_total_kb = 8388608, mem_avail_kb = 0,
                    swap_total_kb = 0, swap_free_kb = 0\<rparr>)
   \<and> read_mem_stat
       (Some \<lparr>mem_total_kb = 9, mem_avail_kb = 9, swap_total_kb = 9, swap_free_kb = 9\<rparr>)
       None
       = (- 1, Some \<lparr>mem_total_kb = 0, mem_avail_kb = 0, swap_total_kb = 0, swap_free_kb = 0\<rparr>)
   \<and> mem_keys \<subseteq> fst ` set (take 5
         [(''MemTotal:'', 8388608, ''kB''), (''MemFree:'', 1048576, ''kB''),
          (''MemAvailable:'', 4194304, ''kB''), (''SwapTotal:'', 4194304, ''kB''),
          (''SwapFree:'', 2097152 :: long, ''kB''), (''Dirty:'', 12, ''kB'')])
   \<and> ''SwapFree:'' \<notin> fst ` set [(''MemTotal:'', 8388608 :: long, ''kB''), (''Cached:'', 77, ''kB'')]"
  using read_mem_stat_contract
          [of "\<lparr>mem_total_kb = 9, mem_avail_kb = 9, swap_total_kb = 9, swap_free_kb = 9\<rparr>"
              "None"
              "[(''MemTotal:'', 8388608, ''kB''), (''MemFree:'', 1048576, ''kB''),
                (''MemAvailable:'', 4194304, ''kB''), (''SwapTotal:'', 4194304, ''kB''),
                (''SwapFree:'', 2097152, ''kB''), (''Dirty:'', 12, ''kB'')]"]
        read_mem_stat_contract
          [of "\<lparr>mem_total_kb = 9, mem_avail_kb = 9, swap_total_kb = 9, swap_free_kb = 9\<rparr>"
              "None"
              "[(''MemTotal:'', 8388608, ''kB''), (''Cached:'', 77, ''kB'')]"]
  by (simp add: read_mem_stat_def zeroed_def mem_keys_def)

text \<open>
  The counter counts matches, not distinct keys: a key that comes four times ends the
  scan as well.
\<close>

lemma meminfo_scan_counts_repeats:
  "meminfo_scan \<lparr>mem_total_kb = 0, mem_avail_kb = 0, swap_total_kb = 0, swap_free_kb = 0\<rparr> 0
     [(''MemTotal:'', 1, ''kB''), (''MemTotal:'', 2, ''kB''), (''MemTotal:'', 3, ''kB''),
      (''MemTotal:'', 4, ''kB''), (''MemAvailable:'', 5, ''kB'')]
   = (\<lparr>mem_total_kb = 4, mem_avail_kb = 0, swap_total_kb = 0, swap_free_kb = 0\<rparr>, 4,
      [(''MemAvailable:'', 5, ''kB'')])"
  by simp

section \<open>Theorems: the output line\<close>

text \<open>On every pass that prints, the swap figures of the line are these.\<close>

lemma main_tick_line:
  assumes "main_tick st env = Inr (st', Some line)"
  shows "mem_swap_used line
           = double_of_long (swap_total_kb (mem st') - swap_free_kb (mem st')) / 1024 / 1024"
    and "mem_swap_avail line = double_of_long (swap_free_kb (mem st')) / 1024"
    and "mem_avail line = double_of_long (mem_avail_kb (mem st')) / 1024 / 1024"
    and "mem_used line
           = double_of_long (mem_total_kb (mem st') - mem_avail_kb (mem st')) / 1024 / 1024"
  using assms
  by (auto simp: main_tick_def Let_def split: prod.splits if_splits sum.splits)

text \<open>
  C4. The specification has every line report both swap figures in GB. The code
  divides the used swap by 1024 twice and the free swap by 1024 once: with 2097152 kB
  (2 GB) of free swap the line reports 2048 as free swap, where the start-up banner of
  the same program reports 2 and the used swap of the same line is in GB.
\<close>

theorem main_tick_swap_free_in_mb:
  "\<exists>st' line.
      main_tick
        \<lparr>prev_cpu = \<lparr>user = 100, nice = 20, system = 30, idle = 1000\<rparr>,
         curr_cpu = \<lparr>user = 100, nice = 20, system = 30, idle = 1000\<rparr>,
         cpu_win = \<lparr>samples = [0, 0, 0, 0, 0, 0, 0, 0, 0, 0], index = 0, count = 0\<rparr>,
         mem = \<lparr>mem_total_kb = 0, mem_avail_kb = 0, swap_total_kb = 0, swap_free_kb = 0\<rparr>\<rparr>
        \<lparr>proc_stat = Some [150, 20, 60, 1020],
         proc_meminfo =
           Some [(''MemTotal:'', 8388608, ''kB''), (''MemFree:'', 1048576, ''kB''),
                 (''MemAvailable:'', 4194304, ''kB''), (''SwapTotal:'', 4194304, ''kB''),
                 (''SwapFree:'', 2097152, ''kB''), (''Dirty:'', 12, ''kB'')],
         now_sec = 1\<rparr>
        = Inr (st', Some line)
      \<and> swap_total_kb (mem st') = 4194304 \<and> swap_free_kb (mem st') = 2097152
      \<and> mem_swap_used line = 2
      \<and> mem_swap_avail line = 2048
      \<and> double_of_long (swap_free_kb (mem st')) / 1024 / 1024 = 2
      \<and> snd (snd (snd (main_banner (mem st')))) = 2"
  by (simp add: main_tick_def read_cpu_stat_def read_mem_stat_def cpu_usage_def Let_def
        cpu_window_add_def CPU_WINDOW_def cpu_window_avg_sum double_of_long_def main_banner_def)

end
